theory Spec2Isabelle
  imports Complex_Main "HOL-Library.Multiset"
begin

section \<open>Dense matrices and the Armadillo operations the evaluators call\<close>

text \<open>
  An \<^verbatim>\<open>arma::mat\<close> is modelled as the list of its rows, an \<^verbatim>\<open>arma::vec\<close> or
  \<^verbatim>\<open>arma::rowvec\<close> as a list; \<^verbatim>\<open>double\<close> is modelled by \<^typ>\<open>real\<close> (exact
  arithmetic: rounding, NaN and infinities are outside the model). Every exception an
  Armadillo call can throw is a value of \<open>error\<close>.
\<close>

type_synonym vec = "real list"
type_synonym mat = "real list list"

datatype error =
    NotSquare                \<comment> \<open>\<^verbatim>\<open>chol()\<close>, \<^verbatim>\<open>inv()\<close>: given matrix must be square sized\<close>
  | NotPositiveDefinite      \<comment> \<open>\<^verbatim>\<open>chol(): decomposition failed\<close>\<close>
  | Singular                 \<comment> \<open>\<^verbatim>\<open>inv(): matrix is singular\<close>\<close>
  | IncompatibleDimensions   \<comment> \<open>subtraction or multiplication of operands whose sizes differ\<close>
  | EigFailed                \<comment> \<open>\<^verbatim>\<open>eig_sym(): decomposition failed\<close>\<close>
  | Terminated               \<comment> \<open>an exception left an OpenMP parallel region: \<^verbatim>\<open>std::terminate\<close>\<close>

text \<open>\<^verbatim>\<open>x.n_cols\<close>. A batch without rows has no observable column count in this model;
  the evaluators then run no loop iteration and return the empty vector.\<close>

definition n_cols :: "mat \<Rightarrow> nat" where
  "n_cols A = (case A of [] \<Rightarrow> 0 | r # _ \<Rightarrow> length r)"

definition is_square :: "mat \<Rightarrow> bool" where
  "is_square A = list_all (\<lambda>r. length r = length A) A"

text \<open>An \<open>n\<close> by \<open>k\<close> matrix.\<close>

definition is_mat :: "nat \<Rightarrow> nat \<Rightarrow> mat \<Rightarrow> bool" where
  "is_mat n k A = (length A = n \<and> list_all (\<lambda>r. length r = k) A)"

definition dot :: "vec \<Rightarrow> vec \<Rightarrow> real" where
  "dot u v = sum_list (map2 (*) u v)"

definition mat_vec :: "mat \<Rightarrow> vec \<Rightarrow> vec" where
  "mat_vec A v = map (\<lambda>r. dot r v) A"

text \<open>\<^verbatim>\<open>arma::trans\<close>.\<close>

definition trans_mat :: "mat \<Rightarrow> mat" where
  "trans_mat A = map (\<lambda>j. map (\<lambda>r. r ! j) A) [0..<n_cols A]"

text \<open>Row vector times matrix.\<close>

definition vec_mat :: "vec \<Rightarrow> mat \<Rightarrow> vec" where
  "vec_mat v A = map (dot v) (trans_mat A)"

text \<open>\<^verbatim>\<open>A.diag()\<close>.\<close>

definition diag :: "mat \<Rightarrow> vec" where
  "diag A = map (\<lambda>i. A ! i ! i) [0..<min (length A) (n_cols A)]"

subsection \<open>\<^verbatim>\<open>arma::chol\<close>\<close>

text \<open>
  \<^verbatim>\<open>chol(X)\<close> returns the upper triangular \<open>R\<close> with \<open>R\<^sup>T R = X\<close> and throws when the
  decomposition fails, that is when a pivot is not positive. Only the upper triangle of
  \<open>X\<close> is read. The factorisation proceeds row by row: the first row of \<open>R\<close> is the
  first row of \<open>X\<close> divided by the root of the pivot, and the remaining rows are the
  factor of the Schur complement.
\<close>

definition schur :: "mat \<Rightarrow> vec \<Rightarrow> mat" where
  "schur C w = map2 (\<lambda>row wi. map2 (\<lambda>c wj. c - wi * wj) row w) C w"

function chol_rec :: "mat \<Rightarrow> error + mat" where
  "chol_rec [] = Inr []"
| "chol_rec ([] # rs) = Inl NotSquare"
| "chol_rec ((a # u) # rs) =
     (if a \<le> 0 then Inl NotPositiveDefinite
      else (let d = sqrt a; w = map (\<lambda>c. c / d) u in
        case chol_rec (schur (map tl rs) w) of
          Inl e \<Rightarrow> Inl e
        | Inr R \<Rightarrow> Inr ((d # w) # map ((#) 0) R)))"
  by pat_completeness auto
termination
  by (relation "measure length") (auto simp: schur_def)

definition chol :: "mat \<Rightarrow> error + mat" where
  "chol X = (if is_square X then chol_rec X else Inl NotSquare)"

subsection \<open>\<^verbatim>\<open>arma::inv(trimatu(.))\<close>\<close>

text \<open>
  The inverse of the upper triangle of a square matrix, by back substitution; the
  entries below the diagonal are not read. It throws when a diagonal entry is zero.
\<close>

fun inv_trimatu_rec :: "mat \<Rightarrow> error + mat" where
  "inv_trimatu_rec [] = Inr []"
| "inv_trimatu_rec ([] # rs) = Inl NotSquare"
| "inv_trimatu_rec ((d # w) # rs) =
     (if d = 0 then Inl Singular
      else case inv_trimatu_rec (map tl rs) of
          Inl e \<Rightarrow> Inl e
        | Inr M \<Rightarrow> Inr ((1 / d # map (\<lambda>c. - c / d) (vec_mat w M)) # map ((#) 0) M))"

definition inv_trimatu :: "mat \<Rightarrow> error + mat" where
  "inv_trimatu X = (if is_square X then inv_trimatu_rec X else Inl NotSquare)"

section \<open>The whitening-factor evaluator \<^verbatim>\<open>dmvnrm_arma\<close>\<close>

text \<open>\<^verbatim>\<open>rooti = arma::trans(arma::inv(trimatu(arma::chol(sigma))))\<close>\<close>

definition rooti_of :: "mat \<Rightarrow> error + mat" where
  "rooti_of sigma =
     (case chol sigma of
        Inl e \<Rightarrow> Inl e
      | Inr R \<Rightarrow> (case inv_trimatu R of Inl e \<Rightarrow> Inl e | Inr Ri \<Rightarrow> Inr (trans_mat Ri)))"

text \<open>\<^verbatim>\<open>double rootisum = arma::sum(log(rooti.diag()))\<close>\<close>

definition rootisum_of :: "mat \<Rightarrow> real" where
  "rootisum_of rooti = sum_list (map ln (diag rooti))"

text \<open>
  \<^verbatim>\<open>double constants = -(xdim/2) * log(2 * M_PI)\<close> with \<^verbatim>\<open>int xdim\<close>: the quotient
  \<^verbatim>\<open>xdim/2\<close> is a division of two \<^verbatim>\<open>int\<close>s and is converted to \<^verbatim>\<open>double\<close> only
  afterwards. \<open>xdim\<close> is a column count, so it is not negative and C++'s truncating
  division agrees with \<open>div\<close>.
\<close>

definition constants_of :: "int \<Rightarrow> real" where
  "constants_of xdim = real_of_int (- (xdim div 2)) * ln (2 * pi)"

text \<open>
  The body of the loop over the rows:
  \<^verbatim>\<open>arma::vec z = rooti * arma::trans(x.row(i) - mean);\<close>
  \<^verbatim>\<open>out(i) = constants - 0.5 * arma::sum(z%z) + rootisum;\<close>
  The subtraction and the product throw when the sizes of their operands differ.
\<close>

definition row_logdens :: "mat \<Rightarrow> vec \<Rightarrow> real \<Rightarrow> real \<Rightarrow> vec \<Rightarrow> error + real" where
  "row_logdens rooti mean constants rootisum row =
     (if length row = length mean then
        (let c = map2 (-) row mean in
         if n_cols rooti = length c then
           (let z = mat_vec rooti c in
            Inr (constants - 0.5 * sum_list (map2 (*) z z) + rootisum))
         else Inl IncompatibleDimensions)
      else Inl IncompatibleDimensions)"

text \<open>
  A loop over row indices that stores one result per index into \<open>out\<close>. The indices are
  visited in the order of the list; an exception ends the loop.
\<close>

fun for_rows :: "(nat \<Rightarrow> error + real) \<Rightarrow> nat list \<Rightarrow> vec \<Rightarrow> error + vec" where
  "for_rows body [] out = Inr out"
| "for_rows body (i # is) out =
     (case body i of Inl e \<Rightarrow> Inl e | Inr v \<Rightarrow> for_rows body is (out[i := v]))"

text \<open>
  \<^verbatim>\<open>arma::vec out(n)\<close> is created before the factorisation and every entry is written by
  the loop before the vector is returned; the model starts it filled with zeros.
\<close>

definition dmvnrm_arma :: "mat \<Rightarrow> vec \<Rightarrow> mat \<Rightarrow> bool \<Rightarrow> error + vec" where
  "dmvnrm_arma x mean sigma logd =
     (let n = length x; xdim = int (n_cols x); out0 = replicate n 0 in
      case rooti_of sigma of
        Inl e \<Rightarrow> Inl e
      | Inr rooti \<Rightarrow>
          (let rootisum = rootisum_of rooti; constants = constants_of xdim in
           case for_rows (\<lambda>i. row_logdens rooti mean constants rootisum (x ! i)) [0..<n] out0 of
             Inl e \<Rightarrow> Inl e
           | Inr out \<Rightarrow> Inr (if logd = False then map exp out else out)))"

section \<open>The OpenMP evaluator \<^verbatim>\<open>dmvnrm_arma_mc\<close>\<close>

text \<open>
  The OpenMP runtime keeps the number of threads of the next parallel regions in a
  process-wide control variable, which \<^verbatim>\<open>omp_set_num_threads\<close> overwrites. OpenMP
  leaves the effect of a request that is not positive to the implementation: it is the
  parameter \<open>on_nonpositive\<close>, a function of the request and of the current setting.
\<close>

record omp_state =
  nthreads_var :: int

definition omp_set_num_threads :: "(int \<Rightarrow> int \<Rightarrow> int) \<Rightarrow> int \<Rightarrow> omp_state \<Rightarrow> omp_state" where
  "omp_set_num_threads on_nonpositive n s =
     s\<lparr>nthreads_var := (if 0 < n then n else on_nonpositive n (nthreads_var s))\<rparr>"

text \<open>libgomp, for one: a request that is not positive sets one thread.\<close>

definition gomp_nonpositive :: "int \<Rightarrow> int \<Rightarrow> int" where
  "gomp_nonpositive n old = 1"

text \<open>A parallel region runs on the encountering thread at least.\<close>

definition team_size :: "omp_state \<Rightarrow> nat" where
  "team_size s = max 1 (nat (nthreads_var s))"

text \<open>
  \<^verbatim>\<open>#pragma omp parallel for schedule(dynamic)\<close>: the runtime hands every iteration to
  one thread of the team, each iteration once. A schedule lists the pairs (thread,
  iteration) in the order in which the iterations store their result.
\<close>

definition valid_schedule :: "nat \<Rightarrow> nat \<Rightarrow> (nat \<times> nat) list \<Rightarrow> bool" where
  "valid_schedule team n sched =
     (list_all (\<lambda>ti. fst ti < team) sched \<and> mset (map snd sched) = mset [0..<n])"

text \<open>An exception may not leave a parallel region: the program is terminated.\<close>

definition omp_parallel_for ::
  "(nat \<Rightarrow> error + real) \<Rightarrow> (nat \<times> nat) list \<Rightarrow> vec \<Rightarrow> error + vec" where
  "omp_parallel_for body sched out =
     (case for_rows body (map snd sched) out of
        Inl e \<Rightarrow> Inl Terminated
      | Inr out' \<Rightarrow> Inr out')"

definition dmvnrm_arma_mc ::
  "(int \<Rightarrow> int \<Rightarrow> int) \<Rightarrow> (nat \<times> nat) list \<Rightarrow>
     mat \<Rightarrow> vec \<Rightarrow> mat \<Rightarrow> bool \<Rightarrow> int \<Rightarrow> omp_state \<Rightarrow> (error + vec) \<times> omp_state" where
  "dmvnrm_arma_mc on_nonpositive sched x mean sigma logd cores s =
     (let s1 = omp_set_num_threads on_nonpositive cores s;
          n = length x; xdim = int (n_cols x); out0 = replicate n 0 in
      (case rooti_of sigma of
         Inl e \<Rightarrow> Inl e
       | Inr rooti \<Rightarrow>
           (let rootisum = rootisum_of rooti; constants = constants_of xdim in
            case omp_parallel_for
                   (\<lambda>i. row_logdens rooti mean constants rootisum (x ! i)) sched out0 of
              Inl e \<Rightarrow> Inl e
            | Inr out \<Rightarrow> Inr (if logd = False then map exp out else out)),
       s1))"

section \<open>The Mahalanobis form \<^verbatim>\<open>dmvnorm_arma\<close>\<close>

text \<open>\<^verbatim>\<open>cov.i()\<close>: the inverse of a square matrix, here by cofactors; it throws when the
  matrix is singular.\<close>

definition del_nth :: "nat \<Rightarrow> 'a list \<Rightarrow> 'a list" where
  "del_nth j xs = take j xs @ drop (Suc j) xs"

function det :: "mat \<Rightarrow> real" where
  "det [] = 1"
| "det (r # rs) = (\<Sum>j\<leftarrow>[0..<length r]. (- 1) ^ j * r ! j * det (map (del_nth j) rs))"
  by pat_completeness auto
termination
  by (relation "measure length") auto

definition inv_mat :: "mat \<Rightarrow> error + mat" where
  "inv_mat A =
     (if is_square A then
        (if det A = 0 then Inl Singular
         else Inr (map (\<lambda>i. map (\<lambda>j. (- 1) ^ (i + j) *
                      det (map (del_nth i) (del_nth j A)) / det A) [0..<length A])
                   [0..<length A]))
      else Inl NotSquare)"

text \<open>The loop that centres the rows, \<^verbatim>\<open>x_cen.row(i) = x.row(i) - center\<close>.\<close>

fun center_rows :: "mat \<Rightarrow> vec \<Rightarrow> error + mat" where
  "center_rows [] center = Inr []"
| "center_rows (r # rs) center =
     (if length r = length center then
        (case center_rows rs center of
           Inl e \<Rightarrow> Inl e
         | Inr cs \<Rightarrow> Inr (map2 (-) r center # cs))
      else Inl IncompatibleDimensions)"

text \<open>\<^verbatim>\<open>return sum((x_cen * cov.i()) % x_cen, 1)\<close>\<close>

definition Mahalanobis :: "mat \<Rightarrow> vec \<Rightarrow> mat \<Rightarrow> error + vec" where
  "Mahalanobis x center cov =
     (case center_rows x center of
        Inl e \<Rightarrow> Inl e
      | Inr x_cen \<Rightarrow>
          (case inv_mat cov of
             Inl e \<Rightarrow> Inl e
           | Inr ci \<Rightarrow>
               if list_all (\<lambda>r. length r = length ci) x_cen
               then Inr (map (\<lambda>r. sum_list (map2 (*) (vec_mat r ci) r)) x_cen)
               else Inl IncompatibleDimensions))"

text \<open>
  \<^verbatim>\<open>arma::eig_sym\<close>, the eigenvalues of a symmetric matrix by LAPACK, is not computed by
  a closed formula; it is the parameter \<open>eig_sym\<close> of the model.
\<close>

definition dmvnorm_arma ::
  "(mat \<Rightarrow> error + vec) \<Rightarrow> mat \<Rightarrow> vec \<Rightarrow> mat \<Rightarrow> bool \<Rightarrow> error + vec" where
  "dmvnorm_arma eig_sym x mean sigma log_scale =
     (case Mahalanobis x mean sigma of
        Inl e \<Rightarrow> Inl e
      | Inr distval \<Rightarrow>
          (case eig_sym sigma of
             Inl e \<Rightarrow> Inl e
           | Inr ev \<Rightarrow>
               (let logdet = sum_list (map ln ev);
                    log2pi = ln (2 * pi);
                    logretval = map (\<lambda>d. - ((real (n_cols x) * log2pi + logdet + d) / 2)) distval
                in Inr (if log_scale then logretval else map exp logretval))))"

section \<open>Shapes of the factors\<close>

lemma is_square_is_mat: "is_square A = is_mat (length A) (length A) A"
  by (simp add: is_square_def is_mat_def)

lemma is_mat_Cons: "is_mat (Suc n) k (r # rs) = (length r = k \<and> is_mat n k rs)"
  by (auto simp: is_mat_def)

lemma is_mat_map_tl: "is_mat n (Suc k) A \<Longrightarrow> is_mat n k (map tl A)"
  by (auto simp: is_mat_def list_all_iff)

lemma is_mat_map_Cons: "is_mat n k A \<Longrightarrow> is_mat n (Suc k) (map ((#) c) A)"
  by (auto simp: is_mat_def list_all_iff)

lemma is_mat_schur: "is_mat n n C \<Longrightarrow> length w = n \<Longrightarrow> is_mat n n (schur C w)"
  by (auto simp: is_mat_def schur_def list_all_iff dest!: set_zip_leftD)

lemma n_cols_is_mat: "is_mat n n A \<Longrightarrow> n_cols A = n"
  by (cases A) (auto simp: is_mat_def n_cols_def)

lemma chol_rec_shape: "is_mat n n A \<Longrightarrow> chol_rec A = Inr R \<Longrightarrow> is_mat n n R"
proof (induction A arbitrary: n R rule: chol_rec.induct)
  case 1
  then show ?case by (simp add: is_mat_def)
next
  case (2 rs)
  then show ?case by simp
next
  case (3 a u rs)
  from "3.prems"(1) obtain m where n: "n = Suc m" and lu: "length u = m"
    and rs: "is_mat m (Suc m) rs"
    by (cases n) (auto simp: is_mat_def)
  let ?w = "map (\<lambda>c. c / sqrt a) u"
  from "3.prems"(2) obtain R' where a: "\<not> a \<le> 0"
    and R': "chol_rec (schur (map tl rs) ?w) = Inr R'"
    and R: "R = (sqrt a # ?w) # map ((#) 0) R'"
    by (auto simp: Let_def split: if_splits sum.splits)
  have "is_mat m m (schur (map tl rs) ?w)"
    using rs lu by (simp add: is_mat_schur is_mat_map_tl)
  then have "is_mat m m R'"
    using "3.IH"[OF a refl refl _ R'] by simp
  then show ?case
    using lu by (simp add: R n is_mat_Cons is_mat_map_Cons)
qed

lemma length_trans_mat: "length (trans_mat A) = n_cols A"
  by (simp add: trans_mat_def)

lemma length_vec_mat: "length (vec_mat v A) = n_cols A"
  by (simp add: vec_mat_def length_trans_mat)

lemma inv_trimatu_rec_shape: "is_mat n n A \<Longrightarrow> inv_trimatu_rec A = Inr M \<Longrightarrow> is_mat n n M"
proof (induction A arbitrary: n M rule: inv_trimatu_rec.induct)
  case 1
  then show ?case by (simp add: is_mat_def)
next
  case (2 rs)
  then show ?case by simp
next
  case (3 d w rs)
  from "3.prems"(1) obtain m where n: "n = Suc m" and lw: "length w = m"
    and rs: "is_mat m (Suc m) rs"
    by (cases n) (auto simp: is_mat_def)
  from "3.prems"(2) obtain M' where d: "d \<noteq> 0"
    and M': "inv_trimatu_rec (map tl rs) = Inr M'"
    and M: "M = (1 / d # map (\<lambda>c. - c / d) (vec_mat w M')) # map ((#) 0) M'"
    by (auto split: if_splits sum.splits)
  have "is_mat m m M'"
    using "3.IH"[OF d _ M'] rs by (simp add: is_mat_map_tl)
  then show ?case
    by (simp add: M n is_mat_Cons is_mat_map_Cons length_vec_mat n_cols_is_mat)
qed

lemma is_mat_trans_mat: "is_mat n n A \<Longrightarrow> is_mat n n (trans_mat A)"
  by (simp add: is_mat_def trans_mat_def n_cols_is_mat[unfolded is_mat_def] list_all_iff)

lemma rooti_of_shape:
  assumes "is_square sigma" "rooti_of sigma = Inr rooti"
  shows "is_mat (length sigma) (length sigma) rooti"
proof -
  let ?k = "length sigma"
  from assms obtain R Ri where R: "chol_rec sigma = Inr R"
    and Ri: "inv_trimatu R = Inr Ri" and r: "rooti = trans_mat Ri"
    by (auto simp: rooti_of_def chol_def split: sum.splits if_splits)
  have s: "is_mat ?k ?k sigma" using assms(1) by (simp add: is_square_is_mat)
  have R': "is_mat ?k ?k R" using chol_rec_shape[OF s R] .
  then have "length R = ?k" by (simp add: is_mat_def)
  with Ri have "inv_trimatu_rec R = Inr Ri"
    by (auto simp: inv_trimatu_def split: if_splits)
  then have "is_mat ?k ?k Ri" using inv_trimatu_rec_shape[OF R'] by simp
  then show ?thesis by (simp add: r is_mat_trans_mat)
qed

section \<open>Log scale and natural scale\<close>

text \<open>
  C5. Exponentiating, entry by entry, what the evaluator returns on the log scale gives
  what it returns on the natural scale, on every input; when the call throws, it throws
  the same exception on both scales. The exponential is one pass over the vector the
  loop has completed.
\<close>

theorem dmvnrm_arma_exp_of_log:
  "dmvnrm_arma x mean sigma False = map_sum id (map exp) (dmvnrm_arma x mean sigma True)"
  by (simp add: dmvnrm_arma_def Let_def split: sum.splits)

section \<open>The loop over the rows\<close>

text \<open>
  The sizes of a call agree: the covariance is square, the mean has as many entries as
  the covariance has rows, and so has every row of the batch.
\<close>

definition dims_agree :: "mat \<Rightarrow> vec \<Rightarrow> mat \<Rightarrow> bool" where
  "dims_agree x mean sigma =
     (is_square sigma \<and> length sigma = length mean \<and> list_all (\<lambda>r. length r = length mean) x)"

text \<open>The value the loop body stores for a row, when the sizes agree.\<close>

definition logdens_value :: "mat \<Rightarrow> vec \<Rightarrow> real \<Rightarrow> real \<Rightarrow> vec \<Rightarrow> real" where
  "logdens_value rooti mean constants rootisum row =
     constants - 0.5 * sum_list (map2 (*) (mat_vec rooti (map2 (-) row mean))
                                            (mat_vec rooti (map2 (-) row mean))) + rootisum"

lemma row_logdens_value:
  "length row = length mean \<Longrightarrow> n_cols rooti = length mean \<Longrightarrow>
   row_logdens rooti mean c rs row = Inr (logdens_value rooti mean c rs row)"
  by (simp add: row_logdens_def logdens_value_def Let_def)

lemma for_rows_fold:
  "(\<And>i. i \<in> set js \<Longrightarrow> body i = Inr (f i)) \<Longrightarrow>
   for_rows body js out = Inr (fold (\<lambda>i out. out[i := f i]) js out)"
  by (induction js arbitrary: out) auto

lemma length_fold_upd: "length (fold (\<lambda>i out. out[i := f i]) js out) = length out"
  by (induction js arbitrary: out) auto

lemma nth_fold_upd:
  "j < length out \<Longrightarrow>
   fold (\<lambda>i out. out[i := f i]) js out ! j = (if j \<in> set js then f j else out ! j)"
proof (induction js arbitrary: out)
  case Nil
  then show ?case by simp
next
  case (Cons i js)
  then show ?case by (cases "i = j") auto
qed

lemma fold_upd_all:
  assumes "set js = {0..<n}" "length out = n"
  shows "fold (\<lambda>i out. out[i := f i]) js out = map f [0..<n]"
  by (rule nth_equalityI) (simp_all add: length_fold_upd nth_fold_upd assms)

lemma rows_loop:
  assumes "list_all (\<lambda>r. length r = length mean) x" "n_cols rooti = length mean"
    and "set js = {0..<length x}"
  shows "for_rows (\<lambda>i. row_logdens rooti mean c rs (x ! i)) js (replicate (length x) 0)
         = Inr (map (logdens_value rooti mean c rs) x)"
proof -
  have body: "row_logdens rooti mean c rs (x ! i) = Inr (logdens_value rooti mean c rs (x ! i))"
    if "i \<in> set js" for i
  proof -
    from that assms(3) have "i < length x" by simp
    with assms(1) have "length (x ! i) = length mean" by (simp add: list_all_length)
    then show ?thesis using assms(2) by (rule row_logdens_value)
  qed
  have "for_rows (\<lambda>i. row_logdens rooti mean c rs (x ! i)) js (replicate (length x) 0)
        = Inr (fold (\<lambda>i out. out[i := logdens_value rooti mean c rs (x ! i)]) js
                 (replicate (length x) 0))"
    by (rule for_rows_fold) (rule body)
  also have "fold (\<lambda>i out. out[i := logdens_value rooti mean c rs (x ! i)]) js
               (replicate (length x) 0)
             = map (\<lambda>i. logdens_value rooti mean c rs (x ! i)) [0..<length x]"
    by (rule fold_upd_all) (simp_all add: assms(3))
  also have "\<dots> = map (logdens_value rooti mean c rs) x"
    by (rule nth_equalityI) simp_all
  finally show ?thesis .
qed

lemma n_cols_rooti:
  assumes "dims_agree x mean sigma" "rooti_of sigma = Inr rooti"
  shows "n_cols rooti = length mean"
  using rooti_of_shape[of sigma rooti] assms n_cols_is_mat[of "length sigma" rooti]
  by (simp add: dims_agree_def)

text \<open>The serial evaluator in closed form, when the sizes agree.\<close>

lemma dmvnrm_arma_closed:
  assumes "dims_agree x mean sigma"
  shows "dmvnrm_arma x mean sigma logd =
    (case rooti_of sigma of
       Inl e \<Rightarrow> Inl e
     | Inr rooti \<Rightarrow>
         Inr (map (if logd then (\<lambda>v. v) else exp)
               (map (logdens_value rooti mean (constants_of (int (n_cols x))) (rootisum_of rooti)) x)))"
proof (cases "rooti_of sigma")
  case (Inl e)
  then show ?thesis by (simp add: dmvnrm_arma_def)
next
  case (Inr rooti)
  have "list_all (\<lambda>r. length r = length mean) x"
    using assms by (simp add: dims_agree_def)
  then show ?thesis
    using Inr n_cols_rooti[OF assms Inr]
    by (simp add: dmvnrm_arma_def Let_def rows_loop)
qed

lemma dmvnrm_arma_mc_closed:
  assumes "dims_agree x mean sigma" "set (map snd sched) = {0..<length x}"
  shows "fst (dmvnrm_arma_mc onp sched x mean sigma logd cores s) =
    (case rooti_of sigma of
       Inl e \<Rightarrow> Inl e
     | Inr rooti \<Rightarrow>
         Inr (map (if logd then (\<lambda>v. v) else exp)
               (map (logdens_value rooti mean (constants_of (int (n_cols x))) (rootisum_of rooti)) x)))"
proof (cases "rooti_of sigma")
  case (Inl e)
  then show ?thesis by (simp add: dmvnrm_arma_mc_def Let_def)
next
  case (Inr rooti)
  have "list_all (\<lambda>r. length r = length mean) x"
    using assms by (simp add: dims_agree_def)
  then show ?thesis
    using Inr n_cols_rooti[OF assms(1) Inr] assms(2)
    by (simp add: dmvnrm_arma_mc_def omp_parallel_for_def Let_def rows_loop)
qed

lemma valid_schedule_covers:
  "valid_schedule team n sched \<Longrightarrow> set (map snd sched) = {0..<n}"
proof -
  assume "valid_schedule team n sched"
  then have "mset (map snd sched) = mset [0..<n]" by (simp add: valid_schedule_def)
  then have "set (map snd sched) = set [0..<n]" by (rule mset_eq_setD)
  then show ?thesis by simp
qed

text \<open>The evaluators on the covariance \<open>[[4]]\<close>, the mean \<open>[0]\<close> and the row \<open>[2]\<close>.\<close>

lemma ln_two_pi_ge_one: "1 \<le> ln (2 * pi)"
proof -
  have "exp 1 \<le> 2 * pi" using exp_le pi_ge_two by linarith
  moreover have "0 < 2 * pi" using pi_gt_zero by simp
  ultimately show ?thesis by (simp add: ln_ge_iff)
qed

lemma rooti_of_4: "rooti_of [[4]] = Inr [[1 / 2]]"
  by (simp add: rooti_of_def chol_def inv_trimatu_def is_square_def schur_def vec_mat_def
      trans_mat_def n_cols_def dot_def)

lemma dims_agree_k1: "dims_agree [[2]] [0] [[4]]"
  by (simp add: dims_agree_def is_square_def)

lemma logdens_value_k1:
  "logdens_value [[1 / 2]] [0] (constants_of (int (n_cols [[2]]))) (rootisum_of [[1 / 2]]) [2]
   = - (1 / 2) + ln (1 / 2)"
  by (simp add: logdens_value_def constants_of_def rootisum_of_def diag_def n_cols_def
      mat_vec_def dot_def)

lemma dmvnrm_arma_k1_log: "dmvnrm_arma [[2]] [0] [[4]] True = Inr [- (1 / 2) + ln (1 / 2)]"
  using logdens_value_k1 by (simp add: dmvnrm_arma_closed[OF dims_agree_k1] rooti_of_4)

lemma dmvnrm_arma_mc_k1_log:
  "fst (dmvnrm_arma_mc onp [(0, 0)] [[2]] [0] [[4]] True cores s) = Inr [- (1 / 2) + ln (1 / 2)]"
  using logdens_value_k1 by (simp add: dmvnrm_arma_mc_closed[OF dims_agree_k1] rooti_of_4)

section \<open>The factorisation succeeds exactly on positive definite matrices\<close>

text \<open>
  A covariance matrix is symmetric; it is positive definite when its quadratic form is
  positive on every vector that is not zero.
\<close>

definition symmetric :: "mat \<Rightarrow> bool" where
  "symmetric A = (\<forall>i<length A. \<forall>j<length A. A ! i ! j = A ! j ! i)"

definition positive_definite :: "mat \<Rightarrow> bool" where
  "positive_definite A =
     (\<forall>v. length v = length A \<longrightarrow> (\<exists>c\<in>set v. c \<noteq> 0) \<longrightarrow> 0 < dot v (mat_vec A v))"

lemma dot_Nil [simp]: "dot [] v = 0" "dot u [] = 0"
  by (simp_all add: dot_def)

lemma dot_Cons [simp]: "dot (a # u) (x # y) = a * x + dot u y"
  by (simp add: dot_def)

lemma dot_commute: "dot u v = dot v u"
proof (induction u arbitrary: v)
  case Nil
  then show ?case by simp
next
  case (Cons a u)
  then show ?case by (cases v) simp_all
qed

lemma dot_zero_right: "\<forall>c\<in>set y. c = 0 \<Longrightarrow> dot u y = 0"
proof (induction u arbitrary: y)
  case Nil
  then show ?case by simp
next
  case (Cons a u)
  then show ?case by (cases y) simp_all
qed

lemma mat_vec_Nil [simp]: "mat_vec [] v = []"
  by (simp add: mat_vec_def)

lemma mat_vec_Cons [simp]: "mat_vec (r # rs) v = dot r v # mat_vec rs v"
  by (simp add: mat_vec_def)

lemma dot_mat_vec_Cons:
  "list_all (\<lambda>r. r \<noteq> []) rs \<Longrightarrow>
   dot p (mat_vec rs (x # y)) = x * dot p (map hd rs) + dot p (mat_vec (map tl rs) y)"
proof (induction rs arbitrary: p)
  case Nil
  then show ?case by simp
next
  case (Cons r rs)
  from Cons.prems obtain h t where r: "r = h # t" by (cases r) auto
  show ?case
  proof (cases p)
    case Nil
    then show ?thesis by simp
  next
    case (Cons c cs)
    have "dot cs (mat_vec rs (x # y)) = x * dot cs (map hd rs) + dot cs (mat_vec (map tl rs) y)"
      using Cons.prems Cons.IH \<open>list_all (\<lambda>r. r \<noteq> []) (r # rs)\<close> by simp
    then show ?thesis by (simp add: Cons r algebra_simps)
  qed
qed

lemma dot_schur_row:
  "length row = length w \<Longrightarrow> length w = length y \<Longrightarrow>
   dot (map2 (\<lambda>c wj. c - wi * wj) row w) y = dot row y - wi * dot w y"
proof (induction row w y rule: list_induct3)
  case Nil
  then show ?case by simp
next
  case (Cons c row wj w d y)
  then show ?case by (simp add: algebra_simps)
qed

lemma dot_mat_vec_schur:
  "length C = length w' \<Longrightarrow> list_all (\<lambda>r. length r = length w) C \<Longrightarrow> length w = length y \<Longrightarrow>
   dot p (map2 (\<lambda>row wi. dot (map2 (\<lambda>c wj. c - wi * wj) row w) y) C w')
   = dot p (mat_vec C y) - dot w y * dot p w'"
proof (induction C w' arbitrary: p rule: list_induct2)
  case Nil
  then show ?case by simp
next
  case (Cons row C wi w')
  show ?case
  proof (cases p)
    case Nil
    then show ?thesis by simp
  next
    case (Cons c cs)
    have A: "dot cs (map2 (\<lambda>row wi. dot (map2 (\<lambda>c wj. c - wi * wj) row w) y) C w')
          = dot cs (mat_vec C y) - dot w y * dot cs w'"
      using Cons.prems \<open>list_all (\<lambda>r. length r = length w) (row # C)\<close>
        \<open>length w = length y\<close> Cons.IH by simp
    have B: "dot (map2 (\<lambda>c wj. c - wi * wj) row w) y = dot row y - wi * dot w y"
      using \<open>list_all (\<lambda>r. length r = length w) (row # C)\<close> \<open>length w = length y\<close>
      by (intro dot_schur_row) simp_all
    have "dot p (map2 (\<lambda>row wi. dot (map2 (\<lambda>c wj. c - wi * wj) row w) y) (row # C) (wi # w'))
          = c * (dot row y - wi * dot w y) + (dot cs (mat_vec C y) - dot w y * dot cs w')"
      by (simp add: Cons A B)
    also have "\<dots> = dot p (mat_vec (row # C) y) - dot w y * dot p (wi # w')"
      by (simp add: Cons algebra_simps)
    finally show ?thesis .
  qed
qed

lemma mat_vec_schur:
  "mat_vec (schur C w) y = map2 (\<lambda>row wi. dot (map2 (\<lambda>c wj. c - wi * wj) row w) y) C w"
  by (simp add: mat_vec_def schur_def map_zip_map2 comp_def case_prod_unfold zip_map1 zip_map2)

lemma quad_schur:
  assumes "is_mat m m C" "length w = m" "length y = m"
  shows "dot y (mat_vec (schur C w) y) = dot y (mat_vec C y) - (dot w y)\<^sup>2"
proof -
  have "dot y (mat_vec (schur C w) y) = dot y (mat_vec C y) - dot w y * dot y w"
    unfolding mat_vec_schur using assms by (intro dot_mat_vec_schur) (simp_all add: is_mat_def)
  then show ?thesis by (simp add: power2_eq_square dot_commute[of y w])
qed

lemma quad_Cons:
  assumes "list_all (\<lambda>r. r \<noteq> []) rs" "map hd rs = u"
  shows "dot (x # y) (mat_vec ((a # u) # rs) (x # y))
         = a * x\<^sup>2 + 2 * x * dot u y + dot y (mat_vec (map tl rs) y)"
  using dot_mat_vec_Cons[OF assms(1), of y x y] assms(2)
  by (simp add: power2_eq_square algebra_simps dot_commute[of y u])

lemma dot_map_divide: "dot (map (\<lambda>c. c / d) u) y = dot u y / d"
proof (induction u arbitrary: y)
  case Nil
  then show ?case by simp
next
  case (Cons a u)
  then show ?case by (cases y) (simp_all add: add_divide_distrib)
qed

lemma nth_schur:
  "is_mat m m C \<Longrightarrow> length w = m \<Longrightarrow> i < m \<Longrightarrow> j < m \<Longrightarrow>
   schur C w ! i ! j = C ! i ! j - w ! i * w ! j"
  by (simp add: schur_def is_mat_def list_all_length)

lemma symmetric_schur:
  assumes "is_mat m m C" "length w = m" "symmetric C"
  shows "symmetric (schur C w)"
proof -
  have len: "length (schur C w) = m" using assms by (simp add: schur_def is_mat_def)
  have "length C = m" using assms by (simp add: is_mat_def)
  then show ?thesis
    using assms by (simp add: symmetric_def len nth_schur mult.commute)
qed

lemma symmetric_tail:
  assumes "symmetric ((a # u) # rs)" "is_mat m (Suc m) rs"
  shows "symmetric (map tl rs)"
proof -
  have sym: "((a # u) # rs) ! i ! j = ((a # u) # rs) ! j ! i" if "i < Suc m" "j < Suc m" for i j
    using assms that by (simp add: symmetric_def is_mat_def)
  have "map tl rs ! i ! j = map tl rs ! j ! i" if "i < m" "j < m" for i j
  proof -
    have "((a # u) # rs) ! Suc i ! Suc j = ((a # u) # rs) ! Suc j ! Suc i"
      using that by (intro sym) simp_all
    then show ?thesis
      using assms(2) that by (simp add: is_mat_def list_all_length nth_tl)
  qed
  then show ?thesis using assms(2) by (simp add: symmetric_def is_mat_def)
qed

lemma symmetric_hd:
  assumes "symmetric ((a # u) # rs)" "is_mat m (Suc m) rs" "length u = m"
  shows "map hd rs = u"
proof (rule nth_equalityI)
  show "length (map hd rs) = length u" using assms by (simp add: is_mat_def)
next
  fix i assume "i < length (map hd rs)"
  then have i: "i < m" using assms(2) by (simp add: is_mat_def)
  then have ne: "rs ! i \<noteq> []" using assms(2) by (auto simp: is_mat_def list_all_length)
  have sym: "((a # u) # rs) ! i ! j = ((a # u) # rs) ! j ! i" if "i < Suc m" "j < Suc m" for i j
    using assms that by (simp add: symmetric_def is_mat_def)
  have "((a # u) # rs) ! Suc i ! 0 = ((a # u) # rs) ! 0 ! Suc i"
    using i by (intro sym) simp_all
  then show "map hd rs ! i = u ! i"
    using assms(2) i ne by (simp add: is_mat_def hd_conv_nth)
qed

text \<open>One step of the factorisation completes the square of the quadratic form.\<close>

lemma quad_step:
  assumes rs: "is_mat m (Suc m) rs" and lu: "length u = m" and ly: "length y = m"
    and sym: "symmetric ((a # u) # rs)" and a: "0 < a"
  shows "dot (x # y) (mat_vec ((a # u) # rs) (x # y))
         = (sqrt a * x + dot (map (\<lambda>c. c / sqrt a) u) y)\<^sup>2
           + dot y (mat_vec (schur (map tl rs) (map (\<lambda>c. c / sqrt a) u)) y)"
proof -
  let ?s = "sqrt a"
  let ?w = "map (\<lambda>c. c / ?s) u"
  let ?C = "map tl rs"
  let ?t = "dot ?w y"
  have C: "is_mat m m ?C" using rs by (rule is_mat_map_tl)
  have lw: "length ?w = m" using lu by simp
  have hd: "map hd rs = u" using sym rs lu by (rule symmetric_hd)
  have ne: "list_all (\<lambda>r. r \<noteq> []) rs"
    using rs by (auto simp: is_mat_def list_all_iff)
  have s: "?s * ?s = a" "?s \<noteq> 0" using a by simp_all
  have t: "dot u y = ?s * ?t" using s by (simp add: dot_map_divide)
  have qS: "dot y (mat_vec (schur ?C ?w) y) = dot y (mat_vec ?C y) - ?t\<^sup>2"
    using C lw ly by (rule quad_schur)
  have "dot (x # y) (mat_vec ((a # u) # rs) (x # y))
        = a * x\<^sup>2 + 2 * x * dot u y + dot y (mat_vec ?C y)"
    using ne hd by (rule quad_Cons)
  also have "\<dots> = (?s * x)\<^sup>2 + 2 * (?s * x) * ?t + ?t\<^sup>2 + dot y (mat_vec (schur ?C ?w) y)"
    using s(1) by (simp add: t qS power2_eq_square algebra_simps)
  also have "\<dots> = (?s * x + ?t)\<^sup>2 + dot y (mat_vec (schur ?C ?w) y)"
    by (simp add: power2_sum)
  finally show ?thesis .
qed

lemma schur_shape:
  assumes "is_mat m (Suc m) rs" "length u = m"
  shows "is_mat m m (schur (map tl rs) (map (\<lambda>c. c / d) u))"
  using assms by (simp add: is_mat_schur is_mat_map_tl)

lemma schur_symmetric:
  assumes "is_mat m (Suc m) rs" "length u = m" "symmetric ((a # u) # rs)"
  shows "symmetric (schur (map tl rs) (map (\<lambda>c. c / d) u))"
  using assms by (intro symmetric_schur symmetric_tail[of a u rs m] is_mat_map_tl) simp_all


text \<open>Conversely, the factorisation of a symmetric positive definite matrix succeeds.\<close>

lemma positive_definite_pivot:
  assumes rs: "is_mat m (Suc m) rs" and lu: "length u = m"
    and sym: "symmetric ((a # u) # rs)" and pd: "positive_definite ((a # u) # rs)"
  shows "0 < a"
proof -
  let ?z = "replicate m (0::real)"
  have hd: "map hd rs = u" using sym rs lu by (rule symmetric_hd)
  have ne: "list_all (\<lambda>r. r \<noteq> []) rs"
    using rs by (auto simp: is_mat_def list_all_iff)
  have z: "\<forall>c\<in>set ?z. c = 0" by simp
  have "0 < dot (1 # ?z) (mat_vec ((a # u) # rs) (1 # ?z))"
    using pd rs unfolding positive_definite_def
    by (elim allE[of _ "1 # ?z"]) (simp add: is_mat_def)
  also have "dot (1 # ?z) (mat_vec ((a # u) # rs) (1 # ?z))
             = a * 1\<^sup>2 + 2 * 1 * dot u ?z + dot ?z (mat_vec (map tl rs) ?z)"
    using ne hd by (rule quad_Cons)
  also have "\<dots> = a"
    using z by (simp add: dot_zero_right dot_commute[of ?z])
  finally show ?thesis .
qed

lemma positive_definite_schur:
  assumes rs: "is_mat m (Suc m) rs" and lu: "length u = m"
    and sym: "symmetric ((a # u) # rs)" and pd: "positive_definite ((a # u) # rs)"
  shows "positive_definite (schur (map tl rs) (map (\<lambda>c. c / sqrt a) u))"
proof -
  let ?w = "map (\<lambda>c. c / sqrt a) u"
  let ?S = "schur (map tl rs) ?w"
  have a: "0 < a" using rs lu sym pd by (rule positive_definite_pivot)
  have S: "is_mat m m ?S" using rs lu by (rule schur_shape)
  have "0 < dot y (mat_vec ?S y)" if ly: "length y = m" and nz: "\<exists>c\<in>set y. c \<noteq> 0" for y
  proof -
    let ?x = "- dot ?w y / sqrt a"
    have "0 < dot (?x # y) (mat_vec ((a # u) # rs) (?x # y))"
      using pd rs ly nz unfolding positive_definite_def
      by (elim allE[of _ "?x # y"]) (simp add: is_mat_def)
    also have "dot (?x # y) (mat_vec ((a # u) # rs) (?x # y))
               = (sqrt a * ?x + dot ?w y)\<^sup>2 + dot y (mat_vec ?S y)"
      using rs lu ly sym a by (rule quad_step)
    also have "sqrt a * ?x + dot ?w y = 0" using a by simp
    finally show ?thesis by simp
  qed
  then show ?thesis using S by (simp add: positive_definite_def is_mat_def)
qed

lemma positive_definite_chol_rec:
  "is_mat n n A \<Longrightarrow> symmetric A \<Longrightarrow> positive_definite A \<Longrightarrow> \<exists>R. chol_rec A = Inr R"
proof (induction A arbitrary: n rule: chol_rec.induct)
  case 1
  then show ?case by simp
next
  case (2 rs)
  then show ?case by (auto simp: is_mat_def)
next
  case (3 a u rs)
  from "3.prems"(1) obtain m where n: "n = Suc m" and lu: "length u = m"
    and rs: "is_mat m (Suc m) rs"
    by (cases n) (auto simp: is_mat_def)
  let ?S = "schur (map tl rs) (map (\<lambda>c. c / sqrt a) u)"
  have a: "\<not> a \<le> 0"
    using positive_definite_pivot[OF rs lu "3.prems"(2) "3.prems"(3)] by simp
  have S: "is_mat m m ?S" using rs lu by (rule schur_shape)
  have symS: "symmetric ?S" using rs lu "3.prems"(2) by (rule schur_symmetric)
  have pdS: "positive_definite ?S"
    using rs lu "3.prems"(2) "3.prems"(3) by (rule positive_definite_schur)
  from "3.IH"[OF a refl refl S symS pdS] obtain R' where "chol_rec ?S = Inr R'" ..
  then show ?case using a by (simp add: Let_def)
qed

lemma chol_rec_invertible: "chol_rec A = Inr R \<Longrightarrow> \<exists>M. inv_trimatu_rec R = Inr M"
proof (induction A arbitrary: R rule: chol_rec.induct)
  case 1
  then show ?case by auto
next
  case (2 rs)
  then show ?case by simp
next
  case (3 a u rs)
  let ?w = "map (\<lambda>c. c / sqrt a) u"
  from "3.prems" obtain R' where a: "\<not> a \<le> 0"
    and R': "chol_rec (schur (map tl rs) ?w) = Inr R'"
    and R: "R = (sqrt a # ?w) # map ((#) 0) R'"
    by (auto simp: Let_def split: if_splits sum.splits)
  from "3.IH"[OF a refl refl R'] obtain M' where "inv_trimatu_rec R' = Inr M'" ..
  moreover have "map tl (map ((#) 0) R') = R'" by (simp add: comp_def)
  ultimately show ?case using a by (simp add: R)
qed

lemma rooti_of_positive_definite:
  assumes "is_square sigma" "symmetric sigma" "positive_definite sigma"
  shows "\<exists>rooti. rooti_of sigma = Inr rooti"
proof -
  have m: "is_mat (length sigma) (length sigma) sigma"
    using assms(1) by (simp add: is_square_is_mat)
  from positive_definite_chol_rec[OF m assms(2,3)] obtain R where R: "chol_rec sigma = Inr R" ..
  from chol_rec_invertible[OF R] obtain M where M: "inv_trimatu_rec R = Inr M" ..
  have "is_mat (length sigma) (length sigma) R" using m R by (rule chol_rec_shape)
  then have "is_square R" by (simp add: is_square_def is_mat_def)
  then show ?thesis using assms(1) R M by (simp add: rooti_of_def chol_def inv_trimatu_def)
qed



lemma diag_Nil: "diag [] = []"
  by (simp add: diag_def)

lemma diag_Cons:
  assumes "is_mat m (Suc m) rs" "length w = m"
  shows "diag ((d # w) # rs) = d # diag (map tl rs)"
proof -
  have C: "is_mat m m (map tl rs)" using assms(1) by (rule is_mat_map_tl)
  have "diag ((d # w) # rs) = map (\<lambda>i. ((d # w) # rs) ! i ! i) [0..<Suc m]"
    using assms by (simp add: diag_def n_cols_def is_mat_def)
  also have "[0..<Suc m] = 0 # map Suc [0..<m]"
    by (simp add: upt_conv_Cons map_Suc_upt)
  also have "map (\<lambda>i. ((d # w) # rs) ! i ! i) (0 # map Suc [0..<m])
             = d # map (\<lambda>i. rs ! i ! Suc i) [0..<m]"
    by (simp add: comp_def)
  also have "map (\<lambda>i. rs ! i ! Suc i) [0..<m] = map (\<lambda>i. map tl rs ! i ! i) [0..<m]"
    using assms(1) by (simp add: is_mat_def list_all_length nth_tl)
  also have "\<dots> = diag (map tl rs)"
    using C n_cols_is_mat[OF C] by (simp add: diag_def is_mat_def)
  finally show ?thesis .
qed

lemma diag_trans_mat: "is_mat n n A \<Longrightarrow> diag (trans_mat A) = diag A"
proof -
  assume A: "is_mat n n A"
  then have T: "is_mat n n (trans_mat A)" by (rule is_mat_trans_mat)
  have "trans_mat A ! i ! i = A ! i ! i" if "i < n" for i
    using that A n_cols_is_mat[OF A] by (simp add: trans_mat_def is_mat_def)
  then show ?thesis
    using A T n_cols_is_mat[OF A] n_cols_is_mat[OF T] by (simp add: diag_def is_mat_def)
qed

lemma chol_rec_diag_positive:
  "is_mat n n A \<Longrightarrow> chol_rec A = Inr R \<Longrightarrow> list_all (\<lambda>d. 0 < d) (diag R)"
proof (induction A arbitrary: n R rule: chol_rec.induct)
  case 1
  then show ?case by (simp add: diag_Nil)
next
  case (2 rs)
  then show ?case by simp
next
  case (3 a u rs)
  from "3.prems"(1) obtain m where n: "n = Suc m" and lu: "length u = m"
    and rs: "is_mat m (Suc m) rs"
    by (cases n) (auto simp: is_mat_def)
  let ?w = "map (\<lambda>c. c / sqrt a) u"
  let ?S = "schur (map tl rs) ?w"
  from "3.prems"(2) obtain R' where a: "\<not> a \<le> 0" and R': "chol_rec ?S = Inr R'"
    and R: "R = (sqrt a # ?w) # map ((#) 0) R'"
    by (auto simp: Let_def split: if_splits sum.splits)
  have S: "is_mat m m ?S" using rs lu by (rule schur_shape)
  have mR': "is_mat m m R'" using S R' by (rule chol_rec_shape)
  have "diag R = sqrt a # diag (map tl (map ((#) 0) R'))"
    unfolding R using mR' lu by (intro diag_Cons is_mat_map_Cons) simp_all
  also have "map tl (map ((#) 0) R') = R'" by (simp add: comp_def)
  finally show ?case
    using "3.IH"[OF a refl refl S R'] a by simp
qed

lemma inv_trimatu_rec_diag:
  "is_mat n n R \<Longrightarrow> inv_trimatu_rec R = Inr M \<Longrightarrow> diag M = map (\<lambda>d. 1 / d) (diag R)"
proof (induction R arbitrary: n M rule: inv_trimatu_rec.induct)
  case 1
  then show ?case by (auto simp: diag_Nil)
next
  case (2 rs)
  then show ?case by simp
next
  case (3 d w rs)
  from "3.prems"(1) obtain m where n: "n = Suc m" and lw: "length w = m"
    and rs: "is_mat m (Suc m) rs"
    by (cases n) (auto simp: is_mat_def)
  from "3.prems"(2) obtain M' where d: "d \<noteq> 0"
    and M': "inv_trimatu_rec (map tl rs) = Inr M'"
    and M: "M = (1 / d # map (\<lambda>c. - c / d) (vec_mat w M')) # map ((#) 0) M'"
    by (auto split: if_splits sum.splits)
  have C: "is_mat m m (map tl rs)" using rs by (rule is_mat_map_tl)
  have mM': "is_mat m m M'" using C M' by (rule inv_trimatu_rec_shape)
  have "diag M = 1 / d # diag (map tl (map ((#) 0) M'))"
    unfolding M using mM'
    by (intro diag_Cons is_mat_map_Cons) (simp_all add: length_vec_mat n_cols_is_mat)
  also have "map tl (map ((#) 0) M') = M'" by (simp add: comp_def)
  finally show ?case
    using "3.IH"[OF d C M'] diag_Cons[OF rs lw, of d] by simp
qed

text \<open>The logarithms of \<^verbatim>\<open>rootisum\<close> are taken of positive numbers.\<close>

lemma rooti_of_diag_positive:
  assumes "is_square sigma" "rooti_of sigma = Inr rooti"
  shows "list_all (\<lambda>d. 0 < d) (diag rooti)"
proof -
  let ?k = "length sigma"
  from assms obtain R Ri where R: "chol_rec sigma = Inr R"
    and Ri: "inv_trimatu R = Inr Ri" and r: "rooti = trans_mat Ri"
    by (auto simp: rooti_of_def chol_def split: sum.splits if_splits)
  have s: "is_mat ?k ?k sigma" using assms(1) by (simp add: is_square_is_mat)
  have R': "is_mat ?k ?k R" using s R by (rule chol_rec_shape)
  from Ri have Ri': "inv_trimatu_rec R = Inr Ri"
    by (auto simp: inv_trimatu_def split: if_splits)
  have mRi: "is_mat ?k ?k Ri" using R' Ri' by (rule inv_trimatu_rec_shape)
  have "diag rooti = map (\<lambda>d. 1 / d) (diag R)"
    using diag_trans_mat[OF mRi] inv_trimatu_rec_diag[OF R' Ri'] by (simp add: r)
  then show ?thesis
    using chol_rec_diag_positive[OF s R] by (simp add: list_all_iff)
qed





text \<open>On a valid input the serial evaluator returns a vector, one entry per row.\<close>

lemma dmvnrm_arma_returns:
  assumes "dims_agree x mean sigma" "symmetric sigma" "positive_definite sigma"
  shows "\<exists>v. length v = length x \<and> dmvnrm_arma x mean sigma logd = Inr v"
proof -
  have "is_square sigma" using assms(1) by (simp add: dims_agree_def)
  then obtain rooti where "rooti_of sigma = Inr rooti"
    using rooti_of_positive_definite assms(2,3) by blast
  then show ?thesis by (simp add: dmvnrm_arma_closed[OF assms(1)])
qed

lemma symmetric_4: "symmetric [[4]]"
  by (simp add: symmetric_def)

lemma positive_definite_4: "positive_definite [[4]]"
proof -
  have "0 < dot v (mat_vec [[4]] v)" if "length v = 1" "\<exists>c\<in>set v. c \<noteq> 0" for v
  proof -
    from that(1) obtain c where v: "v = [c]" by (cases v) auto
    with that(2) have "c \<noteq> 0" by simp
    then have "0 < c * c" using zero_less_power2[of c] by (simp add: power2_eq_square)
    then show ?thesis by (simp add: v)
  qed
  then show ?thesis by (simp add: positive_definite_def)
qed

section \<open>Serial and parallel evaluation\<close>

text \<open>
  C4. Whenever the sizes of the rows, the mean and the covariance agree, for every worker
  count of at least one and every schedule that hands each row to one thread of the team
  once, in any order, the parallel evaluator returns what the serial evaluator returns on
  the same rows, mean, covariance and scale: the same vector, or the same exception of
  the factorisation. The equality is exact, since each entry is computed by the same
  operations in both. When the covariance is symmetric and positive definite, what both
  return is a vector with one entry per row.
\<close>

theorem dmvnrm_arma_mc_eq_serial:
  assumes "1 \<le> cores"
    and "valid_schedule (team_size (omp_set_num_threads on_nonpositive cores s)) (length x) sched"
    and "dims_agree x mean sigma"
  shows "fst (dmvnrm_arma_mc on_nonpositive sched x mean sigma logd cores s)
         = dmvnrm_arma x mean sigma logd
    \<and> (symmetric sigma \<and> positive_definite sigma \<longrightarrow>
         (\<exists>v. length v = length x \<and> dmvnrm_arma x mean sigma logd = Inr v))"
  using assms(3) valid_schedule_covers[OF assms(2)] dmvnrm_arma_returns[OF assms(3)]
  by (simp add: dmvnrm_arma_mc_closed dmvnrm_arma_closed)

theorem dmvnrm_arma_mc_eq_serial_witness:
  "(1::int) \<le> 4
   \<and> valid_schedule (team_size (omp_set_num_threads gomp_nonpositive 4 \<lparr>nthreads_var = 1\<rparr>))
        (length [[2::real], [0]]) [(1, 1), (0, 0)]
   \<and> dims_agree [[2], [0]] [0] [[4]]
   \<and> symmetric [[4]] \<and> positive_definite [[4]]
   \<and> fst (dmvnrm_arma_mc gomp_nonpositive [(1, 1), (0, 0)] [[2], [0]] [0] [[4]] False 4
          \<lparr>nthreads_var = 1\<rparr>)
       = dmvnrm_arma [[2], [0]] [0] [[4]] False
   \<and> (\<exists>v. length v = length [[2::real], [0]] \<and> dmvnrm_arma [[2], [0]] [0] [[4]] False = Inr v)"
proof -
  have c: "(1::int) \<le> 4" by simp
  have v: "valid_schedule (team_size (omp_set_num_threads gomp_nonpositive 4 \<lparr>nthreads_var = 1\<rparr>))
        (length [[2::real], [0]]) [(1, 1), (0, 0)]"
    by (simp add: valid_schedule_def team_size_def omp_set_num_threads_def upt_rec)
  have d: "dims_agree [[2], [0]] [0] [[4]]"
    by (simp add: dims_agree_def is_square_def)
  show ?thesis
    using c v d symmetric_4 positive_definite_4 dmvnrm_arma_mc_eq_serial[OF c v d]
    by simp
qed

section \<open>The thread count is a process-wide setting\<close>

text \<open>
  C7, as stated, fails: a call with four workers, made while the process-wide setting is
  one thread, leaves the setting at four threads for every later parallel region.
\<close>

theorem dmvnrm_arma_mc_sets_global:
  "team_size (snd (dmvnrm_arma_mc gomp_nonpositive [(0, 0)] [[2]] [0] [[4]] True 4
      \<lparr>nthreads_var = 1\<rparr>)) = 4
   \<and> team_size \<lparr>nthreads_var = 1\<rparr> = 1"
  by (simp add: dmvnrm_arma_mc_def Let_def omp_set_num_threads_def team_size_def)

text \<open>
  C7, amended. A call with a worker count of at least one overwrites the process-wide
  thread count with that worker count and leaves it so; it never reads the setting it
  finds, so that its result is the same from any two initial settings.
\<close>

theorem dmvnrm_arma_mc_thread_count:
  assumes "1 \<le> cores"
  shows "nthreads_var (snd (dmvnrm_arma_mc on_nonpositive sched x mean sigma logd cores s)) = cores
    \<and> fst (dmvnrm_arma_mc on_nonpositive sched x mean sigma logd cores s)
      = fst (dmvnrm_arma_mc on_nonpositive sched x mean sigma logd cores s')"
  using assms by (simp add: dmvnrm_arma_mc_def Let_def omp_set_num_threads_def)

theorem dmvnrm_arma_mc_thread_count_witness:
  "(1::int) \<le> 4
   \<and> nthreads_var (snd (dmvnrm_arma_mc gomp_nonpositive [(0, 0)] [[2]] [0] [[4]] True 4
        \<lparr>nthreads_var = 1\<rparr>)) = 4
   \<and> fst (dmvnrm_arma_mc gomp_nonpositive [(0, 0)] [[2]] [0] [[4]] True 4 \<lparr>nthreads_var = 1\<rparr>)
      = fst (dmvnrm_arma_mc gomp_nonpositive [(0, 0)] [[2]] [0] [[4]] True 4 \<lparr>nthreads_var = 8\<rparr>)"
proof -
  have c: "(1::int) \<le> 4" by simp
  show ?thesis
    using c dmvnrm_arma_mc_thread_count[OF c, of gomp_nonpositive "[(0, 0)]" "[[2]]" "[0]" "[[4]]"
        True "\<lparr>nthreads_var = 1\<rparr>" "\<lparr>nthreads_var = 8\<rparr>"]
    by simp
qed

section \<open>The worker count is not validated\<close>

text \<open>
  C8, as stated, fails: a call with zero workers raises nothing and returns the
  log-density.
\<close>

theorem dmvnrm_arma_mc_zero_cores:
  "fst (dmvnrm_arma_mc gomp_nonpositive [(0, 0)] [[2]] [0] [[4]] True 0 \<lparr>nthreads_var = 1\<rparr>)
   = Inr [- (1 / 2) + ln (1 / 2)]"
  by (rule dmvnrm_arma_mc_k1_log)

text \<open>
  C8, amended. The worker count is handed to the OpenMP runtime unchecked: for a worker
  count below one, sizes that agree and any schedule of the team the runtime then forms,
  the parallel evaluator returns what the serial evaluator returns.
\<close>

theorem dmvnrm_arma_mc_unchecked_cores:
  assumes "cores < 1"
    and "valid_schedule (team_size (omp_set_num_threads on_nonpositive cores s)) (length x) sched"
    and "dims_agree x mean sigma"
  shows "fst (dmvnrm_arma_mc on_nonpositive sched x mean sigma logd cores s)
         = dmvnrm_arma x mean sigma logd"
  using assms(3) valid_schedule_covers[OF assms(2)]
  by (simp add: dmvnrm_arma_mc_closed dmvnrm_arma_closed)

theorem dmvnrm_arma_mc_unchecked_cores_witness:
  "(0::int) < 1
   \<and> valid_schedule (team_size (omp_set_num_threads gomp_nonpositive 0 \<lparr>nthreads_var = 1\<rparr>))
        (length [[2::real]]) [(0, 0)]
   \<and> dims_agree [[2]] [0] [[4]]
   \<and> fst (dmvnrm_arma_mc gomp_nonpositive [(0, 0)] [[2]] [0] [[4]] True 0 \<lparr>nthreads_var = 1\<rparr>)
       = dmvnrm_arma [[2]] [0] [[4]] True"
proof -
  have c: "(0::int) < 1" by simp
  have v: "valid_schedule (team_size (omp_set_num_threads gomp_nonpositive 0 \<lparr>nthreads_var = 1\<rparr>))
        (length [[2::real]]) [(0, 0)]"
    by (simp add: valid_schedule_def team_size_def omp_set_num_threads_def)
  show ?thesis
    using c v dims_agree_k1 dmvnrm_arma_mc_unchecked_cores[OF c v dims_agree_k1] by simp
qed

section \<open>The dimension-dependent constant\<close>

text \<open>
  The code divides the \<^verbatim>\<open>int\<close> dimension by two before it converts to \<^verbatim>\<open>double\<close>:
  for an even dimension the constant is \<open>-(k/2) log(2\<pi>)\<close>, for an odd dimension it
  is too large by \<open>log(2\<pi>)/2\<close>.
\<close>

lemma constants_of_odd:
  "constants_of (int (2 * m + 1)) = - (real (2 * m + 1) / 2) * ln (2 * pi) + ln (2 * pi) / 2"
proof -
  have "int (2 * m + 1) div 2 = int m" by simp
  then show ?thesis by (simp add: constants_of_def algebra_simps)
qed

lemma constants_of_even: "constants_of (int (2 * m)) = - (real (2 * m) / 2) * ln (2 * pi)"
  by (simp add: constants_of_def)

lemma rootisum_of_half: "rootisum_of [[1 / 2]] = ln (1 / 2)"
  by (simp add: rootisum_of_def diag_def n_cols_def)

text \<open>
  C1, at the covariance \<open>[[4]]\<close> (dimension one): the whitening factor is \<open>[[1/2]]\<close>
  and the log-normalisation constant the evaluator uses is \<open>log(1/2)\<close>, while
  \<open>-(1/2) log(2\<pi>)\<close> plus the log of the factor's diagonal is smaller by at least a half.
\<close>

theorem log_normalization_constant_k1:
  "rooti_of [[4]] = Inr [[1 / 2]]
   \<and> constants_of (int (n_cols [[2]])) + rootisum_of [[1 / 2]] = ln (1 / 2)
   \<and> - (1 / 2) * ln (2 * pi) + rootisum_of [[1 / 2]] \<le> ln (1 / 2) - 1 / 2"
proof -
  have "constants_of (int (n_cols [[2]])) = 0"
    by (simp add: constants_of_def n_cols_def)
  then show ?thesis
    using ln_two_pi_ge_one by (simp add: rooti_of_4 rootisum_of_half)
qed

lemma dmvnrm_arma_k1_natural: "dmvnrm_arma [[2]] [0] [[4]] False = Inr [exp (- (1 / 2)) / 2]"
proof -
  have "exp (- (1 / 2) + ln (1 / 2)) = exp (- (1 / 2)) / (2::real)"
    by (simp only: exp_add) simp
  then show ?thesis
    using logdens_value_k1 by (simp add: dmvnrm_arma_closed[OF dims_agree_k1] rooti_of_4)
qed

text \<open>
  C2, the scenario itself: covariance \<open>[[4]]\<close>, mean \<open>[0]\<close>, the single row \<open>[2]\<close>,
  natural scale. The evaluator returns \<open>exp(-1/2)/2\<close>, which is at least twice the
  density of N(0,4) at 2.
\<close>

theorem dmvnrm_arma_density_k1:
  "dmvnrm_arma [[2]] [0] [[4]] False = Inr [exp (- (1 / 2)) / 2]
   \<and> 2 * (1 / (2 * sqrt (2 * pi)) * exp (- (1 / 2))) \<le> exp (- (1 / 2)) / 2
   \<and> 0 < 1 / (2 * sqrt (2 * pi)) * exp (- (1 / 2))"
proof -
  have s: "2 \<le> sqrt (2 * pi)"
    by (rule real_le_rsqrt) (use pi_ge_two in simp)
  then have "1 / sqrt (2 * pi) \<le> 1 / 2" by (simp add: field_simps)
  then have "1 / sqrt (2 * pi) * exp (- (1 / 2)) \<le> 1 / 2 * exp (- (1 / 2))"
    by (intro mult_right_mono) simp_all
  moreover have "0 < 1 / (2 * sqrt (2 * pi)) * exp (- (1 / 2))"
    using s by simp
  ultimately show ?thesis
    using dmvnrm_arma_k1_natural by simp
qed

section \<open>The two forms on an odd dimension\<close>

text \<open>Agreement of two result vectors within a relative tolerance, entry by entry.\<close>

definition agree_within :: "real \<Rightarrow> vec \<Rightarrow> vec \<Rightarrow> bool" where
  "agree_within tol a b = list_all2 (\<lambda>p q. \<bar>p - q\<bar> \<le> tol * \<bar>q\<bar>) a b"

text \<open>The eigenvalues of a diagonal matrix are its diagonal entries, in ascending order.\<close>

definition eig_sym_diagonal :: "mat \<Rightarrow> error + vec" where
  "eig_sym_diagonal A = (if is_square A then Inr (sort (diag A)) else Inl NotSquare)"

lemma Mahalanobis_k1: "Mahalanobis [[2]] [0] [[4]] = Inr [1]"
  by (simp add: Mahalanobis_def inv_mat_def is_square_def del_nth_def vec_mat_def trans_mat_def
      n_cols_def dot_def)

lemma dmvnorm_arma_k1:
  assumes "eig_sym [[4]] = Inr [4]"
  shows "dmvnorm_arma eig_sym [[2]] [0] [[4]] True = Inr [- ((ln (2 * pi) + ln 4 + 1) / 2)]"
  using assms by (simp add: dmvnorm_arma_def Mahalanobis_k1 n_cols_def Let_def)

lemma forms_differ_k1:
  "\<not> agree_within (1 / 10 ^ 8) [- (1 / 2) + ln (1 / 2)] [- ((ln (2 * pi) + ln 4 + 1) / 2)]"
proof -
  let ?L = "ln (2 * pi)"
  have l4: "ln (4::real) = 2 * ln 2"
    using ln_realpow[of 2 2] by simp
  have l2: "ln (1 / 2 :: real) = - ln 2" by (simp add: ln_div)
  have lo: "1 \<le> ?L" by (rule ln_two_pi_ge_one)
  have "?L \<le> 2 * pi - 1" by (rule ln_le_minus_one) simp
  then have hi: "?L \<le> 7" using pi_less_4 by linarith
  have p2: "0 \<le> ln (2::real)" by simp
  have "ln (2::real) \<le> 2 - 1" by (rule ln_le_minus_one) simp
  then have h2: "ln (2::real) \<le> 1" by simp
  have d: "(- (1 / 2) + ln (1 / 2)) - (- ((?L + ln 4 + 1) / 2)) = ?L / 2"
    by (simp add: l4 l2 field_simps)
  have "0 \<le> ?L + ln 4 + 1" "?L + ln 4 + 1 \<le> 10"
    using lo hi p2 h2 unfolding l4 by linarith+
  then have b: "\<bar>- ((?L + ln 4 + 1) / 2)\<bar> \<le> 5"
    by (simp add: abs_le_iff)
  have "1 / 10 ^ 8 * \<bar>- ((?L + ln 4 + 1) / 2)\<bar> \<le> 1 / 10 ^ 8 * 5"
    using b by (intro mult_left_mono) simp_all
  also have "\<dots> < 1 / 2" by simp
  also have "1 / 2 \<le> \<bar>?L / 2\<bar>" using lo by simp
  finally show ?thesis
    unfolding agree_within_def d[symmetric] by simp
qed

text \<open>
  C3, on the same input and the log scale: whenever \<open>eig_sym\<close> returns the eigenvalue 4
  of \<open>[[4]]\<close>, the Mahalanobis form returns the log-density of N(0,4) at 2, the
  whitening-factor form returns a value larger by \<open>log(2\<pi>)/2\<close>, and the two do not agree
  within the relative tolerance \<open>10\<^sup>-\<^sup>8\<close>.
\<close>

theorem forms_disagree_k1:
  assumes "eig_sym [[4]] = Inr [4]"
  shows "dmvnrm_arma [[2]] [0] [[4]] True = Inr [- (1 / 2) + ln (1 / 2)]
    \<and> dmvnorm_arma eig_sym [[2]] [0] [[4]] True = Inr [- ((ln (2 * pi) + ln 4 + 1) / 2)]
    \<and> \<not> agree_within (1 / 10 ^ 8) [- (1 / 2) + ln (1 / 2)] [- ((ln (2 * pi) + ln 4 + 1) / 2)]"
  using dmvnrm_arma_k1_log dmvnorm_arma_k1[of eig_sym, OF assms] forms_differ_k1
  by (intro conjI)

theorem forms_disagree_k1_witness:
  "eig_sym_diagonal [[4]] = Inr [4]
   \<and> dmvnrm_arma [[2]] [0] [[4]] True = Inr [- (1 / 2) + ln (1 / 2)]
   \<and> dmvnorm_arma eig_sym_diagonal [[2]] [0] [[4]] True = Inr [- ((ln (2 * pi) + ln 4 + 1) / 2)]
   \<and> \<not> agree_within (1 / 10 ^ 8) [- (1 / 2) + ln (1 / 2)] [- ((ln (2 * pi) + ln 4 + 1) / 2)]"
proof -
  have e: "eig_sym_diagonal [[4]] = Inr [4]"
    by (simp add: eig_sym_diagonal_def is_square_def diag_def n_cols_def)
  show ?thesis
    using e forms_disagree_k1[of eig_sym_diagonal, OF e] by (intro conjI) simp_all
qed

section \<open>The vector sum: \<^verbatim>\<open>Sum\<close> and \<^verbatim>\<open>parallelVectorSum\<close>\<close>

text \<open>
  A \<^verbatim>\<open>double\<close> addition is the exact sum, rounded: the rounding is the parameter
  \<open>rnd\<close> of the model (overflow, NaN and infinities are outside it).
  \<^verbatim>\<open>std::accumulate(first, last, 0.0)\<close> adds the elements to the initial value from left
  to right.
\<close>

definition accumulate :: "(real \<Rightarrow> real) \<Rightarrow> real list \<Rightarrow> real \<Rightarrow> real" where
  "accumulate rnd xs init = foldl (\<lambda>a x. rnd (a + x)) init xs"

text \<open>\<^verbatim>\<open>vectorSum\<close>, the serial sum.\<close>

definition vectorSum :: "(real \<Rightarrow> real) \<Rightarrow> real list \<Rightarrow> real" where
  "vectorSum rnd x = accumulate rnd x 0"

text \<open>
  \<^verbatim>\<open>struct Sum : public Worker\<close> with its members \<^verbatim>\<open>input\<close> and \<^verbatim>\<open>value\<close>
  (\<open>value\<close> is a keyword here, hence the prime), its two constructors,
  \<^verbatim>\<open>operator()\<close> and \<^verbatim>\<open>join\<close>.
\<close>

record Sum_worker =
  input :: "real list"
  value' :: real

definition Sum_init :: "real list \<Rightarrow> Sum_worker" where
  "Sum_init x = \<lparr>input = x, value' = 0\<rparr>"

definition Sum_split :: "Sum_worker \<Rightarrow> Sum_worker" where
  "Sum_split s = \<lparr>input = input s, value' = 0\<rparr>"

text \<open>The elements \<^verbatim>\<open>input.begin() + begin\<close> up to \<^verbatim>\<open>input.begin() + end\<close>.\<close>

definition slice :: "'a list \<Rightarrow> nat \<Rightarrow> nat \<Rightarrow> 'a list" where
  "slice xs b e = take (e - b) (drop b xs)"

definition Sum_call :: "(real \<Rightarrow> real) \<Rightarrow> Sum_worker \<Rightarrow> nat \<Rightarrow> nat \<Rightarrow> Sum_worker" where
  "Sum_call rnd s b e = s\<lparr>value' := rnd (value' s + accumulate rnd (slice (input s) b e) 0)\<rparr>"

definition Sum_join :: "(real \<Rightarrow> real) \<Rightarrow> Sum_worker \<Rightarrow> Sum_worker \<Rightarrow> Sum_worker" where
  "Sum_join rnd s rhs = s\<lparr>value' := rnd (value' s + value' rhs)\<rparr>"

text \<open>
  \<^verbatim>\<open>parallelReduce(begin, end, worker)\<close> of RcppParallel cuts the range into pieces and
  runs the worker on them. How it cuts is decided at run time (grain size, number of
  threads, work stealing); a plan records one such run: a piece is handed to the worker
  as it is (\<open>Leaf\<close>), or cut at \<open>m\<close>, and then either the same worker takes both parts
  one after the other (\<open>Seq\<close>), or a worker split off it takes the right part and is
  joined to it afterwards (\<open>Fork\<close>).
\<close>

datatype plan = Leaf | Seq nat plan plan | Fork nat plan plan

fun parallelReduce :: "(real \<Rightarrow> real) \<Rightarrow> plan \<Rightarrow> nat \<Rightarrow> nat \<Rightarrow> Sum_worker \<Rightarrow> Sum_worker" where
  "parallelReduce rnd Leaf b e w = Sum_call rnd w b e"
| "parallelReduce rnd (Seq m l r) b e w = parallelReduce rnd r m e (parallelReduce rnd l b m w)"
| "parallelReduce rnd (Fork m l r) b e w =
     (let rhs = parallelReduce rnd r m e (Sum_split w);
          lhs = parallelReduce rnd l b m w
      in Sum_join rnd lhs rhs)"

text \<open>The cuts of a plan lie in the range, in order.\<close>

fun wf_plan :: "plan \<Rightarrow> nat \<Rightarrow> nat \<Rightarrow> bool" where
  "wf_plan Leaf b e = (b \<le> e)"
| "wf_plan (Seq m l r) b e = (wf_plan l b m \<and> wf_plan r m e)"
| "wf_plan (Fork m l r) b e = (wf_plan l b m \<and> wf_plan r m e)"

text \<open>\<^verbatim>\<open>parallelVectorSum\<close>\<close>

definition parallelVectorSum :: "(real \<Rightarrow> real) \<Rightarrow> plan \<Rightarrow> real list \<Rightarrow> real" where
  "parallelVectorSum rnd p x = value' (parallelReduce rnd p 0 (length x) (Sum_init x))"

text \<open>
  A rounding that leaves the natural numbers up to \<open>N\<close> as they are; the rounding of
  IEEE doubles does so for \<open>N = 2\<^sup>5\<^sup>3\<close>.
\<close>

definition exact_upto :: "nat \<Rightarrow> (real \<Rightarrow> real) \<Rightarrow> bool" where
  "exact_upto N rnd = (\<forall>n\<le>N. rnd (real n) = real n)"

text \<open>Exact arithmetic: no rounding.\<close>

definition exact :: "real \<Rightarrow> real" where
  "exact r = r"

lemma wf_plan_le: "wf_plan p b e \<Longrightarrow> b \<le> e"
  by (induction p arbitrary: b e) fastforce+

lemma slice_append: "b \<le> m \<Longrightarrow> m \<le> e \<Longrightarrow> slice xs b m @ slice xs m e = slice xs b e"
proof -
  assume bm: "b \<le> m" and me: "m \<le> e"
  have "take (e - b) (drop b xs) = take ((m - b) + (e - m)) (drop b xs)"
    using bm me by simp
  also have "\<dots> = take (m - b) (drop b xs) @ take (e - m) (drop (m - b) (drop b xs))"
    by (rule take_add)
  also have "drop (m - b) (drop b xs) = drop m xs"
    using bm by simp
  finally show ?thesis by (simp add: slice_def)
qed

lemma slice_map: "slice (map f xs) b e = map f (slice xs b e)"
  by (simp add: slice_def take_map drop_map)


lemma accumulate_nat:
  assumes "exact_upto N rnd"
  shows "a + sum_list ms \<le> N \<Longrightarrow> accumulate rnd (map real ms) (real a) = real (a + sum_list ms)"
proof (induction ms arbitrary: a)
  case Nil
  then show ?case by (simp add: accumulate_def)
next
  case (Cons m ms)
  have "a + m \<le> N" using Cons.prems by simp
  then have "rnd (real a + real m) = real (a + m)"
    using assms by (simp add: exact_upto_def flip: of_nat_add)
  moreover have "accumulate rnd (map real ms) (real (a + m)) = real (a + m + sum_list ms)"
    using Cons.prems by (intro Cons.IH) simp
  ultimately show ?case by (simp add: accumulate_def add.assoc)
qed

lemma parallelReduce_nat:
  assumes ex: "exact_upto N rnd"
  shows "wf_plan p b e \<Longrightarrow> input w = map real ns \<Longrightarrow> value' w = real v \<Longrightarrow>
         v + sum_list (slice ns b e) \<le> N \<Longrightarrow>
         parallelReduce rnd p b e w = w\<lparr>value' := real (v + sum_list (slice ns b e))\<rparr>"
proof (induction p arbitrary: b e w v)
  case Leaf
  let ?s = "sum_list (slice ns b e)"
  have "accumulate rnd (map real (slice ns b e)) (real 0) = real (0 + ?s)"
    using Leaf.prems by (intro accumulate_nat[OF ex]) simp
  moreover have "rnd (real v + real ?s) = real (v + ?s)"
    using ex Leaf.prems by (simp add: exact_upto_def flip: of_nat_add)
  ultimately show ?case
    using Leaf.prems by (simp add: Sum_call_def slice_map)
next
  case (Seq m l r)
  from Seq.prems have l: "wf_plan l b m" and r: "wf_plan r m e" by simp_all
  have sl: "slice ns b m @ slice ns m e = slice ns b e"
    using wf_plan_le[OF l] wf_plan_le[OF r] by (rule slice_append)
  then have sum: "sum_list (slice ns b e) = sum_list (slice ns b m) + sum_list (slice ns m e)"
    by (metis sum_list_append)
  let ?w = "w\<lparr>value' := real (v + sum_list (slice ns b m))\<rparr>"
  have 1: "parallelReduce rnd l b m w = ?w"
    using Seq.prems sum by (intro Seq.IH(1)[OF l]) simp_all
  have 2: "parallelReduce rnd r m e ?w
           = ?w\<lparr>value' := real (v + sum_list (slice ns b m) + sum_list (slice ns m e))\<rparr>"
    using Seq.prems sum by (intro Seq.IH(2)[OF r]) simp_all
  show ?case
    unfolding parallelReduce.simps 1 2 by (simp add: sum add.assoc)
next
  case (Fork m l r)
  from Fork.prems have l: "wf_plan l b m" and r: "wf_plan r m e" by simp_all
  have sl: "slice ns b m @ slice ns m e = slice ns b e"
    using wf_plan_le[OF l] wf_plan_le[OF r] by (rule slice_append)
  then have sum: "sum_list (slice ns b e) = sum_list (slice ns b m) + sum_list (slice ns m e)"
    by (metis sum_list_append)
  have 1: "parallelReduce rnd l b m w = w\<lparr>value' := real (v + sum_list (slice ns b m))\<rparr>"
    using Fork.prems sum by (intro Fork.IH(1)[OF l]) simp_all
  have 2: "parallelReduce rnd r m e (Sum_split w)
           = (Sum_split w)\<lparr>value' := real (0 + sum_list (slice ns m e))\<rparr>"
    using Fork.prems sum by (intro Fork.IH(2)[OF r]) (simp_all add: Sum_split_def)
  have "rnd (real (v + sum_list (slice ns b m)) + real (sum_list (slice ns m e)))
        = real (v + sum_list (slice ns b e))"
    using ex Fork.prems(4) sum by (simp add: exact_upto_def flip: of_nat_add)
  then show ?case
    unfolding parallelReduce.simps Let_def 1 2 by (simp add: Sum_join_def Sum_split_def)
qed

lemma exact_apply: "exact r = r"
  by (simp add: exact_def)





lemma exact_upto_exact: "exact_upto N exact"
  by (simp add: exact_upto_def exact_apply)

text \<open>
  C9. On the sequence 1, 2, ..., 8 the parallel sum returns exactly 36, and so does the
  serial left-to-right sum, for every way of cutting the range and joining the workers
  (that of four workers among them) and for every rounding of the additions that is
  exact on the natural numbers up to \<open>2\<^sup>5\<^sup>3\<close>: no addition rounds.
\<close>

theorem parallelVectorSum_one_to_eight:
  assumes "exact_upto (2 ^ 53) rnd" and "wf_plan p 0 8"
  shows "parallelVectorSum rnd p [1, 2, 3, 4, 5, 6, 7, 8] = 36
         \<and> vectorSum rnd [1, 2, 3, 4, 5, 6, 7, 8] = 36"
proof -
  let ?ns = "[1, 2, 3, 4, 5, 6, 7, 8] :: nat list"
  have xs: "[1, 2, 3, 4, 5, 6, 7, 8] = map real ?ns" by simp
  have sl: "sum_list (slice ?ns 0 8) = 36" by (simp add: slice_def)
  have le: "0 + sum_list (slice ?ns 0 8) \<le> 2 ^ 53" by (simp add: slice_def)
  have "parallelReduce rnd p 0 8 (Sum_init (map real ?ns))
        = (Sum_init (map real ?ns))\<lparr>value' := real (0 + sum_list (slice ?ns 0 8))\<rparr>"
    by (rule parallelReduce_nat[OF assms(1) assms(2) _ _ le]) (simp_all add: Sum_init_def)
  moreover have "length (map real ?ns) = 8" by simp
  ultimately have "parallelVectorSum rnd p (map real ?ns) = 36"
    unfolding sl parallelVectorSum_def by (simp only:) simp
  moreover have "accumulate rnd (map real ?ns) (real 0) = real (0 + sum_list ?ns)"
    by (rule accumulate_nat[OF assms(1)]) simp
  then have "vectorSum rnd (map real ?ns) = 36"
    by (simp add: vectorSum_def)
  ultimately show ?thesis unfolding xs by (rule conjI)
qed

theorem parallelVectorSum_one_to_eight_witness:
  "exact_upto (2 ^ 53) exact
   \<and> wf_plan (Fork 4 (Fork 2 Leaf Leaf) (Fork 6 Leaf Leaf)) 0 8
   \<and> parallelVectorSum exact (Fork 4 (Fork 2 Leaf Leaf) (Fork 6 Leaf Leaf))
        [1, 2, 3, 4, 5, 6, 7, 8] = 36
   \<and> vectorSum exact [1, 2, 3, 4, 5, 6, 7, 8] = 36"
proof -
  have w: "wf_plan (Fork 4 (Fork 2 Leaf Leaf) (Fork 6 Leaf Leaf)) 0 8" by simp
  show ?thesis
    using exact_upto_exact w parallelVectorSum_one_to_eight[OF exact_upto_exact w] by simp
qed



end
